theory Spec2Isabelle
  imports Main
begin

section \<open>Logging configuration of prefect: \<open>src/prefect/logging/configuration.py\<close>\<close>

subsection \<open>Characters and strings of the Python standard library\<close>

text \<open>
  Python strings are modelled as \<open>string\<close> (lists of bytes). The classes below are the
  ASCII classes of Python's \<open>string\<close> module; every byte of a non-ASCII character in
  UTF-8 lies outside all of them, as the character itself lies outside \<open>[0-9a-zA-Z]\<close>.
\<close>

definition digits :: string where
  "digits = ''0123456789''"

definition ascii_lowercase :: string where
  "ascii_lowercase = ''abcdefghijklmnopqrstuvwxyz''"

definition ascii_uppercase :: string where
  "ascii_uppercase = ''ABCDEFGHIJKLMNOPQRSTUVWXYZ''"

text \<open>The character class \<open>[0-9a-zA-Z]\<close> of the regular expression in \<open>to_envvar\<close>.\<close>

definition alnum :: "char \<Rightarrow> bool" where
  "alnum c = (c \<in> set digits \<or> c \<in> set ascii_lowercase \<or> c \<in> set ascii_uppercase)"

text \<open>\<open>str.upper\<close> on ASCII text: a lower-case letter becomes its upper-case letter.\<close>

definition char_upper :: "char \<Rightarrow> char" where
  "char_upper c = (case map_of (zip ascii_lowercase ascii_uppercase) c of
                     Some u \<Rightarrow> u | None \<Rightarrow> c)"

definition upper :: "string \<Rightarrow> string" where
  "upper s = map char_upper s"

text \<open>\<open>sep.join(parts)\<close>.\<close>

fun join :: "string \<Rightarrow> string list \<Rightarrow> string" where
  "join sep [] = []"
| "join sep [x] = x"
| "join sep (x # y # ys) = x @ sep @ join sep (y # ys)"

subsection \<open>Environment variable names\<close>

text \<open>
  \<^verbatim>\<open>to_envvar = partial(re.sub, re.compile(r"[^0-9a-zA-Z]+"), "_")\<close>

  \<open>re.sub\<close> scans from the left; the pattern is greedy, so a match that starts at a
  character outside the class takes the whole run of such characters and is replaced
  by one underscore; a character of the class is copied.
\<close>

function to_envvar :: "string \<Rightarrow> string" where
  "to_envvar [] = []"
| "to_envvar (c # cs) =
     (if alnum c then c # to_envvar cs
      else CHR ''_'' # to_envvar (dropWhile (\<lambda>x. \<not> alnum x) cs))"
  by pat_completeness auto
termination
  by (relation "measure length") (auto simp: less_Suc_eq_le length_dropWhile_le)

text \<open>
  The name looked up in \<open>os.environ\<close> for one key tuple of the flat configuration:
  \<^verbatim>\<open>to_envvar("PREFECT_LOGGING_" + "_".join(key_tup)).upper()\<close>
\<close>

definition env_var_name :: "string list \<Rightarrow> string" where
  "env_var_name key_tup = upper (to_envvar (''PREFECT_LOGGING_'' @ join ''_'' key_tup))"

text \<open>
  The derivation in the words of the specification, for comparison with the code:
  join the prefix and the key-path parts with an underscore, replace every maximal run
  of characters outside \<open>[0-9a-zA-Z]\<close> with a single underscore, upper-case the result.
  \<open>runs P xs\<close> cuts \<open>xs\<close> into its maximal runs of elements on which \<open>P\<close> is constant.
\<close>

fun runs :: "('a \<Rightarrow> bool) \<Rightarrow> 'a list \<Rightarrow> 'a list list" where
  "runs P [] = []"
| "runs P (x # xs) =
     (case runs P xs of
        [] \<Rightarrow> [[x]]
      | r # rs \<Rightarrow> if P x = P (hd r) then (x # r) # rs else [x] # r # rs)"

definition replace_runs :: "string \<Rightarrow> string" where
  "replace_runs s = concat (map (\<lambda>r. if alnum (hd r) then r else ''_'') (runs alnum s))"

definition derive_env_name :: "string \<Rightarrow> string list \<Rightarrow> string" where
  "derive_env_name prefix key_path = upper (replace_runs (join ''_'' (prefix # key_path)))"

text \<open>The alphabet of a derived name: upper-case letters, digits and the separator.\<close>

definition env_alphabet :: "char set" where
  "env_alphabet = set ascii_uppercase \<union> set digits \<union> {CHR ''_''}"


subsection \<open>Exceptions\<close>

text \<open>The exceptions that can leave the functions of the module, as values.\<close>

datatype error =
    KeyError string
  | ValueError string
  | TypeError
  | IndexError
  | AttributeError
  | FileNotFoundError string
  | YAMLError

subsection \<open>Structured configuration\<close>

text \<open>
  The value \<open>yaml.safe_load\<close> returns for a logging configuration: \<open>None\<close>, booleans,
  integers, strings, lists and dictionaries with string keys. A Python \<open>dict\<close> keeps the
  insertion order of its keys and holds every key once; it is modelled as an association
  list. Floating-point numbers are not modelled.
\<close>

datatype yaml =
    YNone
  | YBool bool
  | YInt int
  | YStr string
  | YList "yaml list"
  | YDict "(string \<times> yaml) list"

type_synonym config = "(string \<times> yaml) list"

text \<open>A flat dictionary: key tuples to values.\<close>

type_synonym flatdict = "(string list \<times> yaml) list"

text \<open>\<open>dct[key] = value\<close>: the value of a present key is replaced in place, a new key
  is appended.\<close>

fun dict_set :: "string \<Rightarrow> yaml \<Rightarrow> config \<Rightarrow> config" where
  "dict_set key val [] = [(key, val)]"
| "dict_set key val ((k, v) # dct) =
     (if k = key then (k, val) # dct else (k, v) # dict_set key val dct)"

text \<open>
  Python's \<open>==\<close> on these values (\<open>!=\<close> is its negation): a boolean equals the integer
  0 or 1 it stands for, lists are compared element by element, dictionaries are equal
  when they have the same number of keys and every key of the first has an equal value
  in the second, whatever the order.
\<close>

fun py_eq :: "yaml \<Rightarrow> yaml \<Rightarrow> bool"
  and py_eq_list :: "yaml list \<Rightarrow> yaml list \<Rightarrow> bool"
  and py_eq_items :: "config \<Rightarrow> config \<Rightarrow> bool" where
  "py_eq YNone b = (b = YNone)"
| "py_eq (YBool x) b =
     (case b of YBool y \<Rightarrow> x = y | YInt j \<Rightarrow> (if x then 1 else 0) = j | _ \<Rightarrow> False)"
| "py_eq (YInt i) b =
     (case b of YBool y \<Rightarrow> i = (if y then 1 else 0) | YInt j \<Rightarrow> i = j | _ \<Rightarrow> False)"
| "py_eq (YStr s) b = (b = YStr s)"
| "py_eq (YList xs) b = (case b of YList ys \<Rightarrow> py_eq_list xs ys | _ \<Rightarrow> False)"
| "py_eq (YDict d) b =
     (case b of YDict e \<Rightarrow> length d = length e \<and> py_eq_items d e | _ \<Rightarrow> False)"
| "py_eq_list [] ys = (ys = [])"
| "py_eq_list (x # xs) ys =
     (case ys of [] \<Rightarrow> False | y # ys' \<Rightarrow> py_eq x y \<and> py_eq_list xs ys')"
| "py_eq_items [] e = True"
| "py_eq_items ((k, v) # d) e =
     ((case map_of e k of None \<Rightarrow> False | Some w \<Rightarrow> py_eq v w) \<and> py_eq_items d e)"

subsection \<open>Flattening and nesting (\<open>prefect.utilities.collections\<close>)\<close>

text \<open>
  Modelled from the spec: \<open>dict_to_flatdict\<close> of \<open>prefect.utilities.collections\<close> is
  imported by the module and is not part of the source at hand. The specification
  (section 4.1): a nested mapping becomes a mapping from key-paths to leaf values; the
  keys of nested mappings become the successive elements of the key-path; scalars are
  leaves, and lists are opaque leaves, not recursed into; the empty mapping gives the
  empty mapping. Every nested mapping is recursed into, so a nested mapping without
  keys contributes no key-path.
\<close>

function dict_to_flatdict :: "config \<Rightarrow> string list \<Rightarrow> flatdict" where
  "dict_to_flatdict [] parent = []"
| "dict_to_flatdict ((k, v) # dct) parent =
     (case v of
        YDict d \<Rightarrow> dict_to_flatdict d (parent @ [k])
      | _ \<Rightarrow> [(parent @ [k], v)])
     @ dict_to_flatdict dct parent"
  by pat_completeness auto
termination
  by (relation "measure (\<lambda>(dct, parent). size_list (size_prod (\<lambda>_. 0) size) dct)") auto

text \<open>
  Modelled from the spec: \<open>flatdict_to_dict\<close> of \<open>prefect.utilities.collections\<close>, the
  inverse conversion (section 4.1), is not part of the source at hand either. Every
  pair of the flat mapping is entered in turn: the nested mappings along the
  key-path are created where they are missing, and the value is stored under the last
  key. The specification says nothing about a flat mapping that no nested mapping
  flattens to (an empty key-path, or a key-path that runs through a leaf value); the
  model reports it as an error instead of inventing a result.
\<close>

fun set_path :: "string list \<Rightarrow> yaml \<Rightarrow> config \<Rightarrow> error + config" where
  "set_path [] val dct = Inl IndexError"
| "set_path [k] val dct = Inr (dict_set k val dct)"
| "set_path (k # k' # ks) val dct =
     (case map_of dct k of
        None \<Rightarrow>
          (case set_path (k' # ks) val [] of
             Inl e \<Rightarrow> Inl e
           | Inr sub \<Rightarrow> Inr (dict_set k (YDict sub) dct))
      | Some (YDict d) \<Rightarrow>
          (case set_path (k' # ks) val d of
             Inl e \<Rightarrow> Inl e
           | Inr sub \<Rightarrow> Inr (dict_set k (YDict sub) dct))
      | Some _ \<Rightarrow> Inl TypeError)"

fun set_paths :: "flatdict \<Rightarrow> config \<Rightarrow> error + config" where
  "set_paths [] result = Inr result"
| "set_paths ((key_tuple, val) # flat) result =
     (case set_path key_tuple val result of
        Inl e \<Rightarrow> Inl e
      | Inr result' \<Rightarrow> set_paths flat result')"

definition flatdict_to_dict :: "flatdict \<Rightarrow> error + config" where
  "flatdict_to_dict flat = set_paths flat []"

text \<open>
  The invariant of a Python dictionary, through the nested dictionaries: every key
  occurs once.
\<close>

function wf_config :: "config \<Rightarrow> bool" where
  "wf_config [] = True"
| "wf_config ((k, v) # dct) =
     (k \<notin> set (map fst dct) \<and> (case v of YDict d \<Rightarrow> wf_config d | _ \<Rightarrow> True) \<and> wf_config dct)"
  by pat_completeness auto
termination
  by (relation "measure (size_list (size_prod (\<lambda>_. 0) size))") auto

text \<open>No nested dictionary of the configuration is empty.\<close>

function no_empty_mapping :: "config \<Rightarrow> bool" where
  "no_empty_mapping [] = True"
| "no_empty_mapping ((k, v) # dct) =
     ((case v of YDict d \<Rightarrow> d \<noteq> [] \<and> no_empty_mapping d | _ \<Rightarrow> True) \<and> no_empty_mapping dct)"
  by pat_completeness auto
termination
  by (relation "measure (size_list (size_prod (\<lambda>_. 0) size))") auto

subsection \<open>Template substitution (\<open>string.Template\<close>)\<close>

text \<open>
  \<open>string.Template.substitute\<close> replaces the matches of the pattern
  \<^verbatim>\<open>\$(?:(?P<escaped>\$)|(?P<named>ID)|{(?P<braced>ID)}|(?P<invalid>))\<close>
  with \<open>ID = [_a-z][_a-z0-9]*\<close>, letters of either case. The alternatives are tried
  in this order at every dollar sign, and an identifier is matched greedily.
\<close>

definition id_start :: "char \<Rightarrow> bool" where
  "id_start c = (c = CHR ''_'' \<or> c \<in> set ascii_lowercase \<or> c \<in> set ascii_uppercase)"

definition id_char :: "char \<Rightarrow> bool" where
  "id_char c = (id_start c \<or> c \<in> set digits)"

datatype token = Lit char | Escaped | Named string | Braced string | Invalid

function tokens :: "string \<Rightarrow> token list" where
  "tokens [] = []"
| "tokens (c # cs) =
     (if c \<noteq> CHR ''$'' then Lit c # tokens cs
      else case cs of
        [] \<Rightarrow> [Invalid]
      | d # ds \<Rightarrow>
          if d = CHR ''$'' then Escaped # tokens ds
          else if id_start d then Named (takeWhile id_char cs) # tokens (dropWhile id_char cs)
          else if d = CHR ''{'' \<and> ds \<noteq> [] \<and> id_start (hd ds)
                  \<and> dropWhile id_char ds \<noteq> [] \<and> hd (dropWhile id_char ds) = CHR ''}''
            then Braced (takeWhile id_char ds) # tokens (tl (dropWhile id_char ds))
          else Invalid # tokens cs)"
  by pat_completeness auto
termination
proof (relation "measure length", goal_cases)
  case 1
  show ?case by simp
next
  case (2 c cs)
  then show ?case by simp
next
  case (3 c cs d ds)
  then show ?case by simp
next
  case (4 c cs d ds)
  have "length (dropWhile id_char cs) \<le> length cs"
    by (rule length_dropWhile_le)
  then show ?case by simp
next
  case (5 c cs d ds)
  have "length (tl (dropWhile id_char ds)) \<le> length ds"
    using length_dropWhile_le [of id_char ds] by simp
  with 5 show ?case by simp
next
  case (6 c cs d ds)
  then show ?case by simp
qed

text \<open>
  The callback \<open>convert\<close> of \<open>substitute\<close>: a named or braced placeholder is looked
  up in the mapping (\<open>KeyError\<close> when the name is missing), an escape gives the
  delimiter, an ill-formed placeholder raises \<open>ValueError\<close>. Text outside the matches
  is copied.
\<close>

fun convert :: "(string \<times> string) list \<Rightarrow> token \<Rightarrow> error + string" where
  "convert mapping (Lit c) = Inr [c]"
| "convert mapping Escaped = Inr ''$''"
| "convert mapping (Named n) =
     (case map_of mapping n of Some v \<Rightarrow> Inr v | None \<Rightarrow> Inl (KeyError n))"
| "convert mapping (Braced n) =
     (case map_of mapping n of Some v \<Rightarrow> Inr v | None \<Rightarrow> Inl (KeyError n))"
| "convert mapping Invalid = Inl (ValueError ''Invalid placeholder in string'')"

fun convert_all :: "(string \<times> string) list \<Rightarrow> token list \<Rightarrow> error + string" where
  "convert_all mapping [] = Inr []"
| "convert_all mapping (t # ts) =
     (case convert mapping t of
        Inl e \<Rightarrow> Inl e
      | Inr s \<Rightarrow> (case convert_all mapping ts of Inl e \<Rightarrow> Inl e | Inr r \<Rightarrow> Inr (s @ r)))"

definition substitute :: "(string \<times> string) list \<Rightarrow> string \<Rightarrow> error + string" where
  "substitute mapping template = convert_all mapping (tokens template)"

subsection \<open>The collaborators of the module\<close>

text \<open>
  A setting of \<open>prefect.settings\<close>: its name and its value in a settings object, as
  \<open>str\<close> renders it (\<open>str(setting.value_from(settings))\<close>).
\<close>

record 's setting =
  name :: string
  value_from :: "'s \<Rightarrow> string"

type_synonym path = string

text \<open>A logger of the \<open>logging\<close> module; handlers are identified by name.\<close>

record logger =
  handlers :: "string list"
  level :: nat
  propagate :: bool

type_synonym loggers = "string \<Rightarrow> logger option"

text \<open>
  What the module reads from outside: the registry \<open>SETTINGS\<close> and the two settings
  it names, the files and the environment of the process, the YAML parser, and the
  part of \<open>logging.config.dictConfig\<close> that builds the loggers.
\<close>

record 's world =
  SETTINGS :: "'s setting list"
  PREFECT_LOGGING_SETTINGS_PATH :: "'s \<Rightarrow> path"
  PREFECT_LOGGING_EXTRA_LOGGERS :: "'s \<Rightarrow> string list"
  files :: "path \<Rightarrow> string option"
  environ :: "string \<Rightarrow> string option"
  safe_load :: "string \<Rightarrow> error + yaml"
  configure :: "config \<Rightarrow> loggers \<Rightarrow> error + loggers"

definition DEFAULT_LOGGING_SETTINGS_PATH :: path where
  "DEFAULT_LOGGING_SETTINGS_PATH = ''logging.yml''"

subsection \<open>\<open>load_logging_config\<close>\<close>

text \<open>
  The mapping given to \<open>substitute\<close>:
  \<^verbatim>\<open>{setting.name: str(setting.value_from(settings)) for setting in SETTINGS.values()}\<close>
  A later setting of the same name replaces an earlier one.
\<close>

definition template_mapping :: "'s world \<Rightarrow> 's \<Rightarrow> (string \<times> string) list" where
  "template_mapping W settings =
     rev (map (\<lambda>setting. (name setting, value_from setting settings)) (SETTINGS W))"

text \<open>
  \<open>yaml.safe_load\<close> of PyYAML. A document that is the single line \<open>key: value\<close>, where
  the key and the value are words of ASCII letters that YAML does not read as a boolean
  or as null, is the mapping of the key to the value, both strings. Every other document
  is left to the parameter \<open>safe_load\<close>.
\<close>

definition yaml_reserved_words :: "string list" where
  "yaml_reserved_words =
     [''yes'', ''Yes'', ''YES'', ''no'', ''No'', ''NO'', ''true'', ''True'', ''TRUE'',
      ''false'', ''False'', ''FALSE'', ''on'', ''On'', ''ON'', ''off'', ''Off'', ''OFF'',
      ''null'', ''Null'', ''NULL'']"

definition plain_word :: "string \<Rightarrow> bool" where
  "plain_word w =
     (w \<noteq> [] \<and> list_all (\<lambda>c. c \<in> set ascii_lowercase \<or> c \<in> set ascii_uppercase) w
      \<and> w \<notin> set yaml_reserved_words)"

definition yaml_safe_load :: "'s world \<Rightarrow> string \<Rightarrow> error + yaml" where
  "yaml_safe_load W text =
     (let key = takeWhile (\<lambda>c. c \<noteq> CHR '':'') text;
          rest = dropWhile (\<lambda>c. c \<noteq> CHR '':'') text
      in if plain_word key \<and> take 2 rest = '': '' \<and> plain_word (drop 2 rest)
         then Inr (YDict [(key, YStr (drop 2 rest))])
         else safe_load W text)"

text \<open>
  Lines 37 to 45: the text of the file is substituted and parsed.
  \<open>path.read_text()\<close> raises when the file is missing.
\<close>

definition load_template :: "'s world \<Rightarrow> path \<Rightarrow> 's \<Rightarrow> error + yaml" where
  "load_template W path settings =
     (case files W path of
        None \<Rightarrow> Inl (FileNotFoundError path)
      | Some text \<Rightarrow>
          (case substitute (template_mapping W settings) text of
             Inl e \<Rightarrow> Inl e
           | Inr substituted \<Rightarrow> yaml_safe_load W substituted))"

text \<open>
  The body of the loop of lines 50 to 60, for one key tuple: the value is replaced by
  the value of the environment variable when that is set and not empty.
\<close>

definition override :: "(string \<Rightarrow> string option) \<Rightarrow> string list \<Rightarrow> yaml \<Rightarrow> yaml" where
  "override env key_tup val =
     (case env (env_var_name key_tup) of
        None \<Rightarrow> val
      | Some env_val \<Rightarrow> if env_val \<noteq> [] then YStr env_val else val)"

definition apply_overrides :: "(string \<Rightarrow> string option) \<Rightarrow> config \<Rightarrow> error + config" where
  "apply_overrides env config =
     flatdict_to_dict
       (map (\<lambda>(key_tup, val). (key_tup, override env key_tup val)) (dict_to_flatdict config []))"

text \<open>A parsed document that is not a dictionary has no \<open>items\<close> to flatten.\<close>

definition load_logging_config :: "'s world \<Rightarrow> path \<Rightarrow> 's \<Rightarrow> error + config" where
  "load_logging_config W path settings =
     (case load_template W path settings of
        Inl e \<Rightarrow> Inl e
      | Inr (YDict config) \<Rightarrow> apply_overrides (environ W) config
      | Inr _ \<Rightarrow> Inl AttributeError)"

text \<open>
  The override in the words of the specification (section 4.4), on the nested
  configuration itself: every leaf is replaced by the value of its environment
  variable when that is present and not empty, and nothing else changes.
  \<open>map_leaves f parent dct\<close> applies \<open>f\<close> to every leaf of \<open>dct\<close> (every value that is
  not a dictionary), with the key-path of the leaf, and keeps the keys and the nesting.
\<close>

function map_leaves ::
  "(string list \<Rightarrow> yaml \<Rightarrow> yaml) \<Rightarrow> string list \<Rightarrow> config \<Rightarrow> config" where
  "map_leaves f parent [] = []"
| "map_leaves f parent ((k, v) # dct) =
     (k, case v of
           YDict d \<Rightarrow> YDict (map_leaves f (parent @ [k]) d)
         | _ \<Rightarrow> f (parent @ [k]) v)
     # map_leaves f parent dct"
  by pat_completeness auto
termination
  by (relation "measure (\<lambda>(f, parent, dct). size_list (size_prod (\<lambda>_. 0) size) dct)") auto


subsection \<open>The loggers of the \<open>logging\<close> module\<close>

definition NOTSET :: nat where
  "NOTSET = 0"

text \<open>A logger as \<open>logging.getLogger\<close> creates it on the first use of a name.\<close>

definition new_logger :: logger where
  "new_logger = \<lparr>handlers = [], level = NOTSET, propagate = True\<rparr>"

definition getLogger :: "string \<Rightarrow> loggers \<Rightarrow> loggers" where
  "getLogger n L = (case L n of None \<Rightarrow> L(n \<mapsto> new_logger) | Some lg \<Rightarrow> L)"

definition the_logger :: "loggers \<Rightarrow> string \<Rightarrow> logger" where
  "the_logger L n = (case L n of None \<Rightarrow> new_logger | Some lg \<Rightarrow> lg)"

text \<open>\<open>Logger.addHandler\<close> appends a handler that the logger does not have yet.\<close>

definition addHandler :: "string \<Rightarrow> logger \<Rightarrow> logger" where
  "addHandler hdlr lg =
     (if hdlr \<in> set (handlers lg) then lg else lg\<lparr>handlers := handlers lg @ [hdlr]\<rparr>)"

text \<open>
  The body of the inner loop of lines 101 to 105, for one handler of
  \<open>prefect.extra\<close>. Loggers are shared objects: every attribute is read from the
  store at the moment the statement runs.
\<close>

definition copy_step :: "string \<Rightarrow> string \<Rightarrow> loggers \<Rightarrow> loggers" where
  "copy_step logger_name handler L =
     (let L1 = L(logger_name \<mapsto> addHandler handler (the_logger L logger_name));
          L2 = (if level (the_logger L1 logger_name) = NOTSET
                then L1(logger_name \<mapsto>
                       (the_logger L1 logger_name)\<lparr>level := level (the_logger L1 ''prefect.extra'')\<rparr>)
                else L1)
      in L2(logger_name \<mapsto>
              (the_logger L2 logger_name)\<lparr>propagate := propagate (the_logger L2 ''prefect.extra'')\<rparr>))"

text \<open>
  One round of the outer loop of lines 99 to 105. The inner loop runs over the
  handlers of \<open>prefect.extra\<close>; \<open>addHandler\<close> never appends to that list while it is
  iterated (on \<open>prefect.extra\<close> itself every handler is already present).
\<close>

definition copy_extra :: "string \<Rightarrow> loggers \<Rightarrow> loggers" where
  "copy_extra logger_name L =
     fold (copy_step logger_name)
       (handlers (the_logger (getLogger logger_name L) ''prefect.extra''))
       (getLogger logger_name L)"

text \<open>Lines 96 to 105.\<close>

definition copy_to_extra_loggers :: "string list \<Rightarrow> loggers \<Rightarrow> loggers" where
  "copy_to_extra_loggers names L = fold copy_extra names (getLogger ''prefect.extra'' L)"

text \<open>
  \<open>logging.config.dictConfig\<close> of the standard library refuses a dictionary without
  the key \<open>version\<close> before it does anything else; the rest of its work is the parameter
  \<open>configure\<close>.
\<close>

definition dictConfig :: "'s world \<Rightarrow> config \<Rightarrow> loggers \<Rightarrow> error + loggers" where
  "dictConfig W config L =
     (if map_of config ''version'' = None
      then Inl (ValueError ''dictionary does not specify a version'')
      else configure W config L)"

subsection \<open>\<open>setup_logging\<close>\<close>

text \<open>
  The state of the process: the global \<open>PROCESS_LOGGING_CONFIG\<close>, the loggers, and
  two traces: the configurations \<open>dictConfig\<close> has been called with and the
  differences \<open>warnings.warn\<close> has been called with.
\<close>

record proc =
  PROCESS_LOGGING_CONFIG :: "config option"
  logging :: loggers
  dictConfig_calls :: "config list"
  warnings :: "config list"

definition process_start :: proc where
  "process_start =
     \<lparr>PROCESS_LOGGING_CONFIG = None, logging = Map.empty, dictConfig_calls = [], warnings = []\<rparr>"

text \<open>
  The dictionary comprehension of lines 81 to 85. \<open>PROCESS_LOGGING_CONFIG[key]\<close>
  raises \<open>KeyError\<close> for a key the stored configuration does not have.
\<close>

fun config_diff :: "config \<Rightarrow> config \<Rightarrow> error + config" where
  "config_diff stored [] = Inr []"
| "config_diff stored ((key, val) # config) =
     (case map_of stored key of
        None \<Rightarrow> Inl (KeyError key)
      | Some old \<Rightarrow>
          (case config_diff stored config of
             Inl e \<Rightarrow> Inl e
           | Inr diff \<Rightarrow> Inr (if \<not> py_eq old val then (key, val) # diff else diff)))"

text \<open>Lines 79 to 92: the branch taken when \<open>PROCESS_LOGGING_CONFIG\<close> is true.\<close>

definition warn_if_differs :: "config \<Rightarrow> config \<Rightarrow> proc \<Rightarrow> (error + unit) \<times> proc" where
  "warn_if_differs stored config p =
     (case config_diff stored config of
        Inl e \<Rightarrow> (Inl e, p)
      | Inr diff \<Rightarrow> (Inr (), if diff \<noteq> [] then p\<lparr>warnings := warnings p @ [diff]\<rparr> else p))"

text \<open>Lines 94 to 107.\<close>

definition configure_process :: "'s world \<Rightarrow> 's \<Rightarrow> config \<Rightarrow> proc \<Rightarrow> (error + unit) \<times> proc" where
  "configure_process W settings config p =
     (case dictConfig W config (logging p) of
        Inl e \<Rightarrow> (Inl e, p\<lparr>dictConfig_calls := dictConfig_calls p @ [config]\<rparr>)
      | Inr L \<Rightarrow>
          (Inr (),
           p\<lparr>PROCESS_LOGGING_CONFIG := Some config,
             logging := copy_to_extra_loggers (PREFECT_LOGGING_EXTRA_LOGGERS W settings) L,
             dictConfig_calls := dictConfig_calls p @ [config]\<rparr>))"

text \<open>The path of lines 71 to 75.\<close>

definition settings_path :: "'s world \<Rightarrow> 's \<Rightarrow> path" where
  "settings_path W settings =
     (if files W (PREFECT_LOGGING_SETTINGS_PATH W settings) \<noteq> None
      then PREFECT_LOGGING_SETTINGS_PATH W settings
      else DEFAULT_LOGGING_SETTINGS_PATH)"

text \<open>
  \<open>if PROCESS_LOGGING_CONFIG:\<close> tests the truth value of the global: \<open>None\<close> and the
  empty dictionary are false.
\<close>

definition setup_logging :: "'s world \<Rightarrow> 's \<Rightarrow> proc \<Rightarrow> (error + unit) \<times> proc" where
  "setup_logging W settings p =
     (case load_logging_config W (settings_path W settings) settings of
        Inl e \<Rightarrow> (Inl e, p)
      | Inr config \<Rightarrow>
          (case PROCESS_LOGGING_CONFIG p of
             None \<Rightarrow> configure_process W settings config p
           | Some stored \<Rightarrow>
               if stored \<noteq> [] then warn_if_differs stored config p
               else configure_process W settings config p))"

text \<open>
  A process calls \<open>setup_logging\<close> any number of times, each time with the settings,
  files and environment of that moment; a caller may catch an exception and go on.
\<close>

fun run_calls :: "('s world \<times> 's) list \<Rightarrow> proc \<Rightarrow> proc" where
  "run_calls [] p = p"
| "run_calls ((W, settings) # calls) p = run_calls calls (snd (setup_logging W settings p))"

subsection \<open>Concrete inputs for the examples\<close>

text \<open>
  The documents PyYAML parses from the texts of the examples, a \<open>configure\<close> that
  gives \<open>prefect.extra\<close> one handler, and a process whose default \<open>logging.yml\<close> has
  the given text and whose environment is the given one.
\<close>

definition example_safe_load :: "string \<Rightarrow> error + yaml" where
  "example_safe_load text =
     (if text = ''version: 1'' then Inr (YDict [(''version'', YInt 1)])
      else if text = ''{version: 1, incremental: false}''
        then Inr (YDict [(''version'', YInt 1), (''incremental'', YBool False)])
      else if text = ''{version: 1, root: {level: INFO}}''
        then Inr (YDict [(''version'', YInt 1), (''root'', YDict [(''level'', YStr ''INFO'')])])
      else if text = ''level: INFO'' then Inr (YDict [(''level'', YStr ''INFO'')])
      else if text = ''{}'' then Inr (YDict [])
      else Inl YAMLError)"

definition example_configure :: "config \<Rightarrow> loggers \<Rightarrow> error + loggers" where
  "example_configure config L =
     Inr (L(''prefect.extra'' \<mapsto> \<lparr>handlers = [''api''], level = 20, propagate = False\<rparr>))"

definition example_world :: "string \<Rightarrow> (string \<Rightarrow> string option) \<Rightarrow> unit world" where
  "example_world text env =
     \<lparr>SETTINGS = [\<lparr>name = ''LOG_LEVEL'', value_from = (\<lambda>_. ''INFO'')\<rparr>],
      PREFECT_LOGGING_SETTINGS_PATH = (\<lambda>_. ''/home/prefect/logging.yml''),
      PREFECT_LOGGING_EXTRA_LOGGERS = (\<lambda>_. [''uvicorn'']),
      files = [DEFAULT_LOGGING_SETTINGS_PATH \<mapsto> text],
      environ = env,
      safe_load = example_safe_load,
      configure = example_configure\<rparr>"

section \<open>Properties\<close>

subsection \<open>Environment variable names\<close>

lemma runs_Cons_hd: "\<exists>rs r. runs P (x # xs) = (x # r) # rs"
  by (cases "runs P xs") auto

lemma replace_runs_Nil: "replace_runs [] = []"
  by (simp add: replace_runs_def)

lemma replace_runs_alnum:
  assumes "alnum c"
  shows "replace_runs (c # cs) = c # replace_runs cs"
proof (cases cs)
  case Nil
  with assms show ?thesis by (simp add: replace_runs_def)
next
  case (Cons d ds)
  obtain r rs where r: "runs alnum (d # ds) = (d # r) # rs"
    using runs_Cons_hd [of alnum d ds] by blast
  with assms Cons show ?thesis by (simp add: replace_runs_def)
qed

lemma replace_runs_other:
  assumes "\<not> alnum c"
  shows "replace_runs (c # cs) = CHR ''_'' # replace_runs (dropWhile (\<lambda>x. \<not> alnum x) cs)"
  using assms
proof (induction cs arbitrary: c)
  case Nil
  then show ?case by (simp add: replace_runs_def)
next
  case (Cons d ds)
  obtain r rs where r: "runs alnum (d # ds) = (d # r) # rs"
    using runs_Cons_hd [of alnum d ds] by blast
  show ?case
  proof (cases "alnum d")
    case True
    with Cons.prems r show ?thesis by (simp add: replace_runs_def)
  next
    case False
    have "replace_runs (c # d # ds) = replace_runs (d # ds)"
      using Cons.prems False r by (simp add: replace_runs_def)
    also have "\<dots> = CHR ''_'' # replace_runs (dropWhile (\<lambda>x. \<not> alnum x) ds)"
      using Cons.IH [OF False] .
    finally show ?thesis using False by simp
  qed
qed

lemma to_envvar_replace_runs: "to_envvar s = replace_runs s"
  by (induction s rule: to_envvar.induct)
     (simp_all add: replace_runs_Nil replace_runs_alnum replace_runs_other)

lemma to_envvar_chars: "c \<in> set (to_envvar s) \<Longrightarrow> alnum c \<or> c = CHR ''_''"
  by (induction s rule: to_envvar.induct) (auto split: if_splits)

lemma char_upper_alnum: "alnum c \<Longrightarrow> char_upper c \<in> env_alphabet"
  unfolding alnum_def env_alphabet_def char_upper_def digits_def ascii_lowercase_def
    ascii_uppercase_def
  by (elim disjE) auto

lemma char_upper_underscore: "char_upper (CHR ''_'') = CHR ''_''"
  by (simp add: char_upper_def ascii_lowercase_def ascii_uppercase_def)

lemma upper_to_envvar_alphabet: "set (upper (to_envvar s)) \<subseteq> env_alphabet"
proof
  fix c assume "c \<in> set (upper (to_envvar s))"
  then obtain d where d: "d \<in> set (to_envvar s)" "c = char_upper d"
    by (auto simp: upper_def)
  from to_envvar_chars [OF d(1)] show "c \<in> env_alphabet"
    using d(2) char_upper_alnum char_upper_underscore by (auto simp: env_alphabet_def)
qed

lemma join_prefix: "join ''_'' (''PREFECT_LOGGING_'' # key_tup) =
    ''PREFECT_LOGGING_'' @ (if key_tup = [] then [] else CHR ''_'' # join ''_'' key_tup)"
  by (cases key_tup) simp_all

lemma to_envvar_double_sep:
  assumes "\<not> alnum c" "\<not> alnum d"
  shows "to_envvar (a @ c # d # b) = to_envvar (a @ c # b)"
  using assms
proof (induction a rule: to_envvar.induct)
  case 1
  then show ?case by simp
next
  case (2 x xs)
  show ?case
  proof (cases "alnum x")
    case True
    with 2 show ?thesis by simp
  next
    case False
    show ?thesis
    proof (cases "\<forall>y\<in>set xs. \<not> alnum y")
      case True
      then have "dropWhile (\<lambda>x. \<not> alnum x) (xs @ ys) = dropWhile (\<lambda>x. \<not> alnum x) ys" for ys
        by (intro dropWhile_append2) simp
      with False 2 show ?thesis by simp
    next
      case nall: False
      then obtain y where "y \<in> set xs" "alnum y" by blast
      then have "dropWhile (\<lambda>x. \<not> alnum x) (xs @ ys) = dropWhile (\<lambda>x. \<not> alnum x) xs @ ys" for ys
        by (intro dropWhile_append1) simp_all
      with False 2 show ?thesis by simp
    qed
  qed
qed

lemma not_alnum_underscore: "\<not> alnum (CHR ''_'')"
  by (simp add: alnum_def digits_def ascii_lowercase_def ascii_uppercase_def)

text \<open>
  Claim C5. The name looked up in the environment is the one the specification
  derives: the prefix and the parts of the key-path joined with underscores, every
  maximal run of characters outside \<open>[0-9a-zA-Z]\<close> replaced by one underscore, in upper
  case. The code writes the prefix as \<open>PREFECT_LOGGING_\<close>; for a key-path with at least
  one part the prefix \<open>PREFECT_LOGGING\<close> gives the same name. The name is a function of
  the key-path, and it consists of upper-case letters, digits and underscores only, as
  does the derived name for every prefix and key-path.
\<close>

theorem env_var_name_derivation:
  "env_var_name key_tup = derive_env_name ''PREFECT_LOGGING_'' key_tup \<and>
   (key_tup \<noteq> [] \<longrightarrow> env_var_name key_tup = derive_env_name ''PREFECT_LOGGING'' key_tup) \<and>
   set (env_var_name key_tup) \<subseteq> env_alphabet \<and>
   set (derive_env_name prefix key_path) \<subseteq> env_alphabet"
proof (intro conjI impI)
  show "env_var_name key_tup = derive_env_name ''PREFECT_LOGGING_'' key_tup"
  proof (cases key_tup)
    case Nil
    then show ?thesis
      by (simp add: env_var_name_def derive_env_name_def to_envvar_replace_runs)
  next
    case (Cons k ks)
    have "to_envvar (''PREFECT_LOGGING'' @ CHR ''_'' # CHR ''_'' # b) =
          to_envvar (''PREFECT_LOGGING'' @ CHR ''_'' # b)" for b
      by (rule to_envvar_double_sep [OF not_alnum_underscore not_alnum_underscore])
    with Cons show ?thesis
      by (simp add: env_var_name_def derive_env_name_def to_envvar_replace_runs [symmetric])
  qed
  show "env_var_name key_tup = derive_env_name ''PREFECT_LOGGING'' key_tup" if "key_tup \<noteq> []"
  proof -
    from that obtain k ks where "key_tup = k # ks" by (cases key_tup) auto
    then show ?thesis
      by (simp add: env_var_name_def derive_env_name_def to_envvar_replace_runs)
  qed
  show "set (env_var_name key_tup) \<subseteq> env_alphabet"
    unfolding env_var_name_def by (rule upper_to_envvar_alphabet)
  show "set (derive_env_name prefix key_path) \<subseteq> env_alphabet"
    unfolding derive_env_name_def to_envvar_replace_runs [symmetric]
    by (rule upper_to_envvar_alphabet)
qed

theorem env_var_name_derivation_witness:
  "[''handlers'', ''console'', ''level''] \<noteq> [] \<and>
   env_var_name [''handlers'', ''console'', ''level''] = ''PREFECT_LOGGING_HANDLERS_CONSOLE_LEVEL'' \<and>
   derive_env_name ''PREFECT_LOGGING'' [''handlers'', ''console'', ''level'']
     = ''PREFECT_LOGGING_HANDLERS_CONSOLE_LEVEL''"
proof -
  have n: "[''handlers'', ''console'', ''level''] \<noteq> []" by simp
  have e: "env_var_name [''handlers'', ''console'', ''level''] = ''PREFECT_LOGGING_HANDLERS_CONSOLE_LEVEL''"
    by (simp add: env_var_name_def upper_def char_upper_def alnum_def digits_def
        ascii_lowercase_def ascii_uppercase_def)
  have "env_var_name [''handlers'', ''console'', ''level'']
      = derive_env_name ''PREFECT_LOGGING'' [''handlers'', ''console'', ''level'']"
    using env_var_name_derivation [of "[''handlers'', ''console'', ''level'']"] n by blast
  with e n show ?thesis by metis
qed

subsection \<open>Flattening and nesting\<close>

lemma dict_set_absent: "map_of dct k = None \<Longrightarrow> dict_set k v dct = dct @ [(k, v)]"
  by (induction dct) (auto split: if_splits)

lemma dict_set_same: "map_of dct k = Some v \<Longrightarrow> dict_set k v dct = dct"
  by (induction dct) (auto split: if_splits)

lemma dict_set_twice: "dict_set k v (dict_set k w dct) = dict_set k v dct"
  by (induction dct) auto

lemma map_of_dict_set: "map_of (dict_set k v dct) k = Some v"
  by (induction dct) auto

lemma set_paths_append:
  "set_paths (xs @ ys) R =
     (case set_paths xs R of Inl e \<Rightarrow> Inl e | Inr R' \<Rightarrow> set_paths ys R')"
  by (induction xs arbitrary: R) (auto split: sum.splits)

lemma set_paths_below:
  assumes "map_of R k = Some (YDict sub)" "\<forall>(kt, v)\<in>set its. kt \<noteq> []"
  shows "set_paths (map (\<lambda>(kt, v). (k # kt, v)) its) R =
     (case set_paths its sub of Inl e \<Rightarrow> Inl e | Inr sub' \<Rightarrow> Inr (dict_set k (YDict sub') R))"
  using assms
proof (induction its arbitrary: R sub)
  case Nil
  then show ?case by (simp add: dict_set_same)
next
  case (Cons it its)
  obtain kt v where it: "it = (kt, v)" by (cases it)
  with Cons.prems obtain k' ks where kt: "kt = k' # ks" by (cases kt) auto
  show ?case
  proof (cases "set_path (k' # ks) v sub")
    case (Inl e)
    with it kt Cons.prems show ?thesis by simp
  next
    case (Inr s1)
    have "set_paths (map (\<lambda>(kt, v). (k # kt, v)) its) (dict_set k (YDict s1) R) =
       (case set_paths its s1 of Inl e \<Rightarrow> Inl e
        | Inr sub' \<Rightarrow> Inr (dict_set k (YDict sub') (dict_set k (YDict s1) R)))"
      using Cons.prems by (intro Cons.IH) (simp_all add: map_of_dict_set)
    with Inr it kt Cons.prems show ?thesis by (simp add: dict_set_twice split: sum.splits)
  qed
qed

lemma set_paths_new_key:
  assumes "map_of R k = None" "its \<noteq> []" "\<forall>(kt, v)\<in>set its. kt \<noteq> []"
  shows "set_paths (map (\<lambda>(kt, v). (k # kt, v)) its) R =
     (case set_paths its [] of Inl e \<Rightarrow> Inl e | Inr sub' \<Rightarrow> Inr (dict_set k (YDict sub') R))"
proof -
  from assms(2) obtain it rest where its: "its = it # rest" by (cases its) auto
  obtain kt v where it: "it = (kt, v)" by (cases it)
  with assms(3) its obtain k' ks where kt: "kt = k' # ks" by (cases kt) auto
  show ?thesis
  proof (cases "set_path (k' # ks) v []")
    case (Inl e)
    with its it kt assms(1) show ?thesis by simp
  next
    case (Inr s1)
    have "set_paths (map (\<lambda>(kt, v). (k # kt, v)) rest) (dict_set k (YDict s1) R) =
       (case set_paths rest s1 of Inl e \<Rightarrow> Inl e
        | Inr sub' \<Rightarrow> Inr (dict_set k (YDict sub') (dict_set k (YDict s1) R)))"
      using assms(3) its by (intro set_paths_below) (simp_all add: map_of_dict_set)
    with Inr its it kt assms(1) show ?thesis by (simp add: dict_set_twice split: sum.splits)
  qed
qed

lemma dict_to_flatdict_parent:
  "dict_to_flatdict dct (q @ parent) = map (\<lambda>(kt, v). (q @ kt, v)) (dict_to_flatdict dct parent)"
proof (induction dct parent arbitrary: q rule: dict_to_flatdict.induct)
  case (1 parent)
  show ?case by simp
next
  case (2 k v dct parent)
  show ?case
  proof (cases v)
    case (YDict d)
    from "2.IH"(1) [OF YDict, of q] "2.IH"(2) [of q] YDict show ?thesis by simp
  qed (use "2.IH"(2) [of q] in simp_all)
qed

lemma dict_to_flatdict_paths: "(kt, v) \<in> set (dict_to_flatdict dct []) \<Longrightarrow> kt \<noteq> []"
proof (induction dct "[] :: string list" rule: dict_to_flatdict.induct)
  case 1 then show ?case by simp
next
  case (2 k w dct)
  show ?case
  proof (cases w)
    case (YDict d)
    with "2.prems" "2.hyps"(2) dict_to_flatdict_parent [of d "[k]" "[]"]
    show ?thesis by auto
  qed (use "2.prems" "2.hyps"(2) in auto)
qed

lemma dict_to_flatdict_nonempty:
  "dct \<noteq> [] \<Longrightarrow> no_empty_mapping dct \<Longrightarrow> dict_to_flatdict dct parent \<noteq> []"
proof (induction dct parent rule: dict_to_flatdict.induct)
  case (1 parent) then show ?case by simp
next
  case (2 k v dct parent)
  show ?case
  proof (cases v)
    case (YDict d)
    with "2.prems" "2.IH"(1) [OF YDict] show ?thesis by simp
  qed simp_all
qed

lemma set_paths_map_leaves:
  assumes "wf_config dct" "no_empty_mapping dct" "\<forall>k\<in>set (map fst dct). map_of R k = None"
  shows "set_paths (map (\<lambda>(kt, v). (kt, f (parent @ kt) v)) (dict_to_flatdict dct [])) R =
     Inr (R @ map_leaves f parent dct)"
  using assms
proof (induction dct parent arbitrary: R rule: dict_to_flatdict.induct)
  case (1 parent)
  show ?case by simp
next
  case (2 k v dct parent)
  let ?new = "case v of YDict d \<Rightarrow> YDict (map_leaves f (parent @ [k]) d) | _ \<Rightarrow> f (parent @ [k]) v"
  let ?head = "case v of YDict d \<Rightarrow> dict_to_flatdict d [k] | _ \<Rightarrow> [([k], v)]"
  from "2.prems" have k: "map_of R k = None" and wf: "wf_config dct"
    and ne: "no_empty_mapping dct" and fresh: "k \<notin> set (map fst dct)"
    by simp_all
  have head: "set_paths (map (\<lambda>(kt, v). (kt, f (parent @ kt) v)) ?head) R = Inr (R @ [(k, ?new)])"
  proof (cases "\<exists>d. v = YDict d")
    case True
    then obtain d where d: "v = YDict d" by blast
    from "2.prems" d have wfd: "wf_config d" and ned: "no_empty_mapping d" and dne: "d \<noteq> []"
      by simp_all
    let ?its = "map (\<lambda>(kt, v). (kt, f ((parent @ [k]) @ kt) v)) (dict_to_flatdict d [])"
    have its: "map (\<lambda>(kt, v). (kt, f (parent @ kt) v)) (dict_to_flatdict d [k]) =
        map (\<lambda>(kt, v). (k # kt, v)) ?its"
      using dict_to_flatdict_parent [of d "[k]" "[]"] by (simp add: case_prod_unfold)
    have sub: "set_paths ?its [] = Inr ([] @ map_leaves f (parent @ [k]) d)"
      using "2.IH"(1) [OF d wfd ned, of "[]"] by simp
    have nonempty: "?its \<noteq> []"
      using dict_to_flatdict_nonempty [OF dne ned, of "[]"] by simp
    have paths: "\<forall>(kt, v)\<in>set ?its. kt \<noteq> []"
      using dict_to_flatdict_paths by fastforce
    have "set_paths (map (\<lambda>(kt, v). (k # kt, v)) ?its) R =
        Inr (dict_set k (YDict (map_leaves f (parent @ [k]) d)) R)"
      using set_paths_new_key [OF k nonempty paths] sub by simp
    with d its k show ?thesis by (simp add: dict_set_absent)
  next
    case False
    then have "?head = [([k], v)]" "?new = f (parent @ [k]) v"
      by (cases v; simp)+
    with k show ?thesis by (simp add: dict_set_absent)
  qed
  have "\<forall>k'\<in>set (map fst dct). map_of (R @ [(k, ?new)]) k' = None"
    using "2.prems"(3) fresh by (auto simp: map_of_append split: option.splits)
  from "2.IH"(2) [OF wf ne this]
  have tail: "set_paths (map (\<lambda>(kt, v). (kt, f (parent @ kt) v)) (dict_to_flatdict dct []))
        (R @ [(k, ?new)]) = Inr ((R @ [(k, ?new)]) @ map_leaves f parent dct)" .
  have "dict_to_flatdict ((k, v) # dct) [] = ?head @ dict_to_flatdict dct []"
    by (cases v) simp_all
  then show ?case
    using head tail
    by (simp only: map_append set_paths_append sum.case map_leaves.simps append_assoc
        append_Cons append_Nil)
qed

lemma map_leaves_id: "map_leaves (\<lambda>kt v. v) parent dct = dct"
proof (induction "\<lambda>(kt :: string list) (v :: yaml). v" parent dct rule: map_leaves.induct)
  case (1 parent)
  show ?case by simp
next
  case (2 parent k v dct)
  then show ?case by (cases v) simp_all
qed

text \<open>
  Claim C4, as amended. For every structured configuration \<open>C\<close> (nested dictionaries,
  scalar leaves, lists as opaque leaves; every dictionary holding each key once, as a
  Python dictionary does) in which no nested dictionary is empty, nesting the flattened
  configuration gives \<open>C\<close> back, keys in the same order. The empty configuration
  flattens to the empty flat mapping, which nests to the empty configuration. Both
  conversions are functions of their arguments.
\<close>

theorem flatten_unflatten_roundtrip:
  "(wf_config C \<and> no_empty_mapping C \<longrightarrow> flatdict_to_dict (dict_to_flatdict C []) = Inr C) \<and>
   dict_to_flatdict [] [] = [] \<and> flatdict_to_dict [] = Inr []"
proof (intro conjI impI)
  assume "wf_config C \<and> no_empty_mapping C"
  then have wf: "wf_config C" and ne: "no_empty_mapping C" by simp_all
  have "set_paths (map (\<lambda>(kt, v). (kt, (\<lambda>kt v. v) ([] @ kt) v)) (dict_to_flatdict C [])) [] =
      Inr ([] @ map_leaves (\<lambda>kt v. v) [] C)"
    by (rule set_paths_map_leaves [OF wf ne]) simp
  then show "flatdict_to_dict (dict_to_flatdict C []) = Inr C"
    by (simp add: flatdict_to_dict_def map_leaves_id case_prod_unfold)
qed (simp_all add: flatdict_to_dict_def)

theorem flatten_unflatten_roundtrip_witness:
  "wf_config [(''version'', YInt 1),
              (''handlers'', YDict [(''console'', YDict [(''level'', YStr ''INFO''),
                                                       (''filters'', YList [YStr ''a'', YDict []])])])] \<and>
   no_empty_mapping [(''version'', YInt 1),
              (''handlers'', YDict [(''console'', YDict [(''level'', YStr ''INFO''),
                                                       (''filters'', YList [YStr ''a'', YDict []])])])] \<and>
   flatdict_to_dict (dict_to_flatdict
             [(''version'', YInt 1),
              (''handlers'', YDict [(''console'', YDict [(''level'', YStr ''INFO''),
                                                       (''filters'', YList [YStr ''a'', YDict []])])])] []) =
   Inr [(''version'', YInt 1),
        (''handlers'', YDict [(''console'', YDict [(''level'', YStr ''INFO''),
                                                 (''filters'', YList [YStr ''a'', YDict []])])])]"
proof -
  let ?C = "[(''version'', YInt 1),
              (''handlers'', YDict [(''console'', YDict [(''level'', YStr ''INFO''),
                                                       (''filters'', YList [YStr ''a'', YDict []])])])]"
  have wf: "wf_config ?C" by simp
  have ne: "no_empty_mapping ?C" by simp
  from flatten_unflatten_roundtrip [of ?C, THEN conjunct1, THEN mp, OF conjI [OF wf ne]] wf ne
  show ?thesis by (intro conjI)
qed

text \<open>
  The claim C4 as stated fails where a nested mapping is empty: \<open>{'a': {}}\<close> flattens to
  the empty flat mapping, which nests to \<open>{}\<close>.
\<close>

theorem flatten_unflatten_empty_mapping_lost:
  "wf_config [(''a'', YDict [])] \<and>
   dict_to_flatdict [(''a'', YDict [])] [] = [] \<and>
   flatdict_to_dict (dict_to_flatdict [(''a'', YDict [])] []) = Inr [] \<and>
   flatdict_to_dict (dict_to_flatdict [(''a'', YDict [])] []) \<noteq> Inr [(''a'', YDict [])]"
  by (simp add: flatdict_to_dict_def)








subsection \<open>The gate of \<open>setup_logging\<close>\<close>

lemma dictConfig_nonempty: "dictConfig W config L = Inr L' \<Longrightarrow> config \<noteq> []"
  by (auto simp: dictConfig_def split: if_splits)

lemma setup_logging_when_set:
  assumes "PROCESS_LOGGING_CONFIG p = Some stored" "stored \<noteq> []"
  shows "PROCESS_LOGGING_CONFIG (snd (setup_logging W settings p)) = Some stored \<and>
         dictConfig_calls (snd (setup_logging W settings p)) = dictConfig_calls p \<and>
         logging (snd (setup_logging W settings p)) = logging p"
  using assms
  by (auto simp: setup_logging_def warn_if_differs_def split: sum.splits)

lemma run_calls_when_set:
  assumes "PROCESS_LOGGING_CONFIG p = Some stored" "stored \<noteq> []"
  shows "PROCESS_LOGGING_CONFIG (run_calls calls p) = Some stored \<and>
         dictConfig_calls (run_calls calls p) = dictConfig_calls p \<and>
         logging (run_calls calls p) = logging p"
  using assms
proof (induction calls arbitrary: p)
  case Nil
  then show ?case by simp
next
  case (Cons c calls)
  obtain W settings where c: "c = (W, settings)" by (cases c)
  from setup_logging_when_set [OF Cons.prems, of W settings] Cons.IH [of "snd (setup_logging W settings p)"]
    Cons.prems(2) c
  show ?case by simp
qed

lemma setup_logging_unset_ok:
  assumes "PROCESS_LOGGING_CONFIG p = None"
      and "load_logging_config W (settings_path W settings) settings = Inr config"
      and "dictConfig W config (logging p) = Inr L"
  shows "setup_logging W settings p =
     (Inr (), p\<lparr>PROCESS_LOGGING_CONFIG := Some config,
                logging := copy_to_extra_loggers (PREFECT_LOGGING_EXTRA_LOGGERS W settings) L,
                dictConfig_calls := dictConfig_calls p @ [config]\<rparr>)"
  using assms by (simp add: setup_logging_def configure_process_def)

text \<open>
  Claim C1, as amended. From the unset state (\<open>PROCESS_LOGGING_CONFIG\<close> is \<open>None\<close>), a call of
  \<open>setup_logging\<close> whose configuration resolves and is accepted by \<open>dictConfig\<close> returns
  normally, has called \<open>dictConfig\<close> exactly once, with the resolved configuration, and
  has stored that configuration; the loggers are those \<open>dictConfig\<close> built, with the
  handlers of \<open>prefect.extra\<close> copied to the extra loggers. After it, whatever calls
  follow, with whatever settings, files and environment, \<open>dictConfig\<close> is never called
  again, and the stored configuration and the loggers stay as they are. The test \<open>if PROCESS_LOGGING_CONFIG:\<close> takes an empty stored
  dictionary for unset, but \<open>dictConfig\<close> accepts no dictionary without \<open>version\<close>.
\<close>

theorem gate_applies_once:
  assumes "PROCESS_LOGGING_CONFIG p = None"
      and "load_logging_config W (settings_path W settings) settings = Inr config"
      and "dictConfig W config (logging p) = Inr L"
  shows "fst (setup_logging W settings p) = Inr () \<and>
         PROCESS_LOGGING_CONFIG (snd (setup_logging W settings p)) = Some config \<and>
         dictConfig_calls (snd (setup_logging W settings p)) = dictConfig_calls p @ [config] \<and>
         logging (snd (setup_logging W settings p)) =
           copy_to_extra_loggers (PREFECT_LOGGING_EXTRA_LOGGERS W settings) L \<and>
         PROCESS_LOGGING_CONFIG (run_calls calls (snd (setup_logging W settings p))) = Some config \<and>
         dictConfig_calls (run_calls calls (snd (setup_logging W settings p))) =
           dictConfig_calls p @ [config] \<and>
         logging (run_calls calls (snd (setup_logging W settings p))) =
           copy_to_extra_loggers (PREFECT_LOGGING_EXTRA_LOGGERS W settings) L"
proof -
  let ?p = "snd (setup_logging W settings p)"
  have first: "fst (setup_logging W settings p) = Inr ()"
      "PROCESS_LOGGING_CONFIG ?p = Some config"
      "dictConfig_calls ?p = dictConfig_calls p @ [config]"
      "logging ?p = copy_to_extra_loggers (PREFECT_LOGGING_EXTRA_LOGGERS W settings) L"
    using setup_logging_unset_ok [OF assms] by simp_all
  have ne: "config \<noteq> []"
    using assms(3) by (rule dictConfig_nonempty)
  from run_calls_when_set [OF first(2) ne, of calls] first show ?thesis by simp
qed


lemmas eval_defs =
  example_world_def example_safe_load_def example_configure_def
  load_logging_config_def load_template_def substitute_def template_mapping_def
  apply_overrides_def flatdict_to_dict_def override_def env_var_name_def upper_def
  char_upper_def alnum_def digits_def ascii_lowercase_def ascii_uppercase_def
  id_start_def id_char_def settings_path_def DEFAULT_LOGGING_SETTINGS_PATH_def
  dictConfig_def process_start_def yaml_safe_load_def plain_word_def
  yaml_reserved_words_def Let_def

lemma example_load_version:
  "load_logging_config (example_world ''version: 1'' Map.empty)
     (settings_path (example_world ''version: 1'' Map.empty) ()) () = Inr [(''version'', YInt 1)]"
  by (simp add: eval_defs)

lemma example_load_incremental:
  "load_logging_config (example_world ''{version: 1, incremental: false}'' Map.empty)
     (settings_path (example_world ''{version: 1, incremental: false}'' Map.empty) ()) () =
   Inr [(''version'', YInt 1), (''incremental'', YBool False)]"
  by (simp add: eval_defs)

theorem gate_applies_once_witness:
  "PROCESS_LOGGING_CONFIG process_start = None \<and>
   load_logging_config (example_world ''version: 1'' Map.empty)
     (settings_path (example_world ''version: 1'' Map.empty) ()) () = Inr [(''version'', YInt 1)] \<and>
   dictConfig (example_world ''version: 1'' Map.empty) [(''version'', YInt 1)] (logging process_start) =
     Inr [''prefect.extra'' \<mapsto> \<lparr>handlers = [''api''], level = 20, propagate = False\<rparr>] \<and>
   dictConfig_calls
     (run_calls [(example_world ''{version: 1, incremental: false}'' Map.empty, ()),
                 (example_world ''version: 1'' Map.empty, ())]
        (snd (setup_logging (example_world ''version: 1'' Map.empty) () process_start))) =
     [[(''version'', YInt 1)]]"
proof -
  have a: "PROCESS_LOGGING_CONFIG process_start = None"
    by (simp add: process_start_def)
  have c: "dictConfig (example_world ''version: 1'' Map.empty) [(''version'', YInt 1)]
      (logging process_start) =
     Inr [''prefect.extra'' \<mapsto> \<lparr>handlers = [''api''], level = 20, propagate = False\<rparr>]"
    by (simp add: eval_defs)
  have d: "dictConfig_calls process_start = []"
    by (simp add: process_start_def)
  from gate_applies_once [OF a example_load_version c,
      where calls = "[(example_world ''{version: 1, incremental: false}'' Map.empty, ()),
                      (example_world ''version: 1'' Map.empty, ())]"]
    a example_load_version c d
  show ?thesis by (simp del: run_calls.simps)
qed

lemma setup_logging_unset_cases:
  assumes "PROCESS_LOGGING_CONFIG p = None"
  shows "(\<exists>e. fst (setup_logging W settings p) = Inl e \<and>
              PROCESS_LOGGING_CONFIG (snd (setup_logging W settings p)) = None) \<or>
         (\<exists>config. fst (setup_logging W settings p) = Inr () \<and>
              load_logging_config W (settings_path W settings) settings = Inr config \<and>
              config \<noteq> [] \<and>
              PROCESS_LOGGING_CONFIG (snd (setup_logging W settings p)) = Some config)"
proof (cases "load_logging_config W (settings_path W settings) settings")
  case (Inl e)
  with assms show ?thesis by (simp add: setup_logging_def)
next
  case (Inr config)
  show ?thesis
  proof (cases "dictConfig W config (logging p)")
    case (Inl e)
    with Inr assms show ?thesis by (simp add: setup_logging_def configure_process_def)
  next
    case r: (Inr L)
    from setup_logging_unset_ok [OF assms Inr r] dictConfig_nonempty [OF r] Inr
    show ?thesis by simp
  qed
qed

lemma run_calls_append: "run_calls (xs @ ys) p = run_calls ys (run_calls xs p)"
  by (induction xs arbitrary: p) auto

lemma run_calls_stored_nonempty:
  assumes "PROCESS_LOGGING_CONFIG p = None" "PROCESS_LOGGING_CONFIG (run_calls calls p) = Some config"
  shows "config \<noteq> [] \<and>
     (\<exists>(W, settings)\<in>set calls.
         load_logging_config W (settings_path W settings) settings = Inr config)"
  using assms
proof (induction calls arbitrary: p)
  case Nil
  then show ?case by simp
next
  case (Cons c calls)
  obtain W settings where c: "c = (W, settings)" by (cases c)
  let ?p = "snd (setup_logging W settings p)"
  from setup_logging_unset_cases [OF Cons.prems(1), of W settings]
  consider "PROCESS_LOGGING_CONFIG ?p = None"
    | cfg where "load_logging_config W (settings_path W settings) settings = Inr cfg"
        "cfg \<noteq> []" "PROCESS_LOGGING_CONFIG ?p = Some cfg"
    by auto
  then show ?case
  proof cases
    case 1
    from Cons.IH [OF 1] Cons.prems(2) c show ?thesis by auto
  next
    case 2
    from run_calls_when_set [OF 2(3) 2(2), of calls] Cons.prems(2) c
    have "cfg = config" by simp
    with 2 c show ?thesis by auto
  qed
qed

text \<open>
  Claim C3, as amended. \<open>PROCESS_LOGGING_CONFIG\<close> is assigned at most once in a process. While it
  is unset, a call that raises leaves it unset, and a call that returns normally sets it
  to the configuration that call resolved. Once a sequence of calls from the start of
  the process has set it, it keeps that value through every further sequence of calls;
  the value is the configuration resolved by one of the calls made so far.
\<close>

theorem stored_config_set_once:
  assumes "PROCESS_LOGGING_CONFIG p = None"
  shows "(fst (setup_logging W settings p) \<noteq> Inr () \<longrightarrow>
            PROCESS_LOGGING_CONFIG (snd (setup_logging W settings p)) = None) \<and>
         (fst (setup_logging W settings p) = Inr () \<longrightarrow>
            (\<exists>config. load_logging_config W (settings_path W settings) settings = Inr config \<and>
               PROCESS_LOGGING_CONFIG (snd (setup_logging W settings p)) = Some config)) \<and>
         (PROCESS_LOGGING_CONFIG (run_calls before p) = Some stored \<longrightarrow>
            PROCESS_LOGGING_CONFIG (run_calls after (run_calls before p)) = Some stored \<and>
            (\<exists>(W', settings')\<in>set before.
               load_logging_config W' (settings_path W' settings') settings' = Inr stored))"
proof (intro conjI impI)
  assume "fst (setup_logging W settings p) \<noteq> Inr ()"
  with setup_logging_unset_cases [OF assms, of W settings]
  show "PROCESS_LOGGING_CONFIG (snd (setup_logging W settings p)) = None" by auto
next
  assume "fst (setup_logging W settings p) = Inr ()"
  with setup_logging_unset_cases [OF assms, of W settings]
  show "\<exists>config. load_logging_config W (settings_path W settings) settings = Inr config \<and>
               PROCESS_LOGGING_CONFIG (snd (setup_logging W settings p)) = Some config" by auto
next
  assume s: "PROCESS_LOGGING_CONFIG (run_calls before p) = Some stored"
  from run_calls_stored_nonempty [OF assms s]
  have ne: "stored \<noteq> []" and
    ex: "\<exists>(W', settings')\<in>set before.
               load_logging_config W' (settings_path W' settings') settings' = Inr stored"
    by simp_all
  from run_calls_when_set [OF s ne, of after]
  show "PROCESS_LOGGING_CONFIG (run_calls after (run_calls before p)) = Some stored" by simp
  from ex show "\<exists>(W', settings')\<in>set before.
               load_logging_config W' (settings_path W' settings') settings' = Inr stored" .
qed


lemma example_load_invalid:
  "load_logging_config (example_world ''level: $'' Map.empty)
     (settings_path (example_world ''level: $'' Map.empty) ()) () =
   Inl (ValueError ''Invalid placeholder in string'')"
  by (simp add: eval_defs)

theorem stored_config_set_once_witness:
  "PROCESS_LOGGING_CONFIG process_start = None \<and>
   fst (setup_logging (example_world ''level: $'' Map.empty) () process_start) \<noteq> Inr () \<and>
   PROCESS_LOGGING_CONFIG (snd (setup_logging (example_world ''level: $'' Map.empty) () process_start)) = None \<and>
   fst (setup_logging (example_world ''version: 1'' Map.empty) () process_start) = Inr () \<and>
   PROCESS_LOGGING_CONFIG (snd (setup_logging (example_world ''version: 1'' Map.empty) () process_start)) =
     Some [(''version'', YInt 1)] \<and>
   PROCESS_LOGGING_CONFIG
     (run_calls [(example_world ''level: $'' Map.empty, ()), (example_world ''version: 1'' Map.empty, ())]
        process_start) = Some [(''version'', YInt 1)] \<and>
   PROCESS_LOGGING_CONFIG
     (run_calls [(example_world ''{version: 1, incremental: false}'' Map.empty, ())]
        (run_calls [(example_world ''level: $'' Map.empty, ()), (example_world ''version: 1'' Map.empty, ())]
           process_start)) = Some [(''version'', YInt 1)]"
proof -
  let ?bad = "example_world ''level: $'' Map.empty"
  let ?ok = "example_world ''version: 1'' Map.empty"
  let ?more = "example_world ''{version: 1, incremental: false}'' Map.empty"
  have a: "PROCESS_LOGGING_CONFIG process_start = None"
    by (simp add: process_start_def)
  have bad: "setup_logging ?bad () process_start =
      (Inl (ValueError ''Invalid placeholder in string''), process_start)"
    by (simp add: setup_logging_def example_load_invalid)
  have c: "dictConfig ?ok [(''version'', YInt 1)] (logging process_start) =
     Inr [''prefect.extra'' \<mapsto> \<lparr>handlers = [''api''], level = 20, propagate = False\<rparr>]"
    by (simp add: eval_defs)
  note ok = setup_logging_unset_ok [OF a example_load_version c]
  have r1: "fst (setup_logging ?bad () process_start) \<noteq> Inr ()"
    by (simp add: bad)
  have r2: "fst (setup_logging ?ok () process_start) = Inr ()"
    by (simp add: ok)
  have r3: "PROCESS_LOGGING_CONFIG (run_calls [(?bad, ()), (?ok, ())] process_start) =
      Some [(''version'', YInt 1)]"
    by (simp add: bad ok)
  from stored_config_set_once [OF a, of ?bad "()"] r1
  have w1: "PROCESS_LOGGING_CONFIG (snd (setup_logging ?bad () process_start)) = None"
    by blast
  from stored_config_set_once [OF a, of ?ok "()"] r2 example_load_version
  have w2: "PROCESS_LOGGING_CONFIG (snd (setup_logging ?ok () process_start)) =
      Some [(''version'', YInt 1)]"
    by auto
  note t3 = stored_config_set_once [OF a, where before = "[(?bad, ()), (?ok, ())]"
      and stored = "[(''version'', YInt 1)]" and after = "[(?more, ())]"]
  from t3 [THEN conjunct2, THEN conjunct2, THEN mp, OF r3, THEN conjunct1]
  have w3: "PROCESS_LOGGING_CONFIG (run_calls [(?more, ())]
      (run_calls [(?bad, ()), (?ok, ())] process_start)) = Some [(''version'', YInt 1)]" .
  from a r1 w1 r2 w2 r3 w3 show ?thesis by (intro conjI)
qed

subsection \<open>The comparison with the stored configuration\<close>

lemma config_diff_missing:
  assumes "key \<in> set (map fst config)" "key \<notin> set (map fst stored)"
  shows "\<exists>k. k \<in> set (map fst config) \<and> k \<notin> set (map fst stored) \<and>
             config_diff stored config = Inl (KeyError k)"
  using assms
proof (induction config)
  case Nil
  then show ?case by simp
next
  case (Cons kv config)
  obtain k v where kv: "kv = (k, v)" by (cases kv)
  show ?case
  proof (cases "map_of stored k")
    case None
    then have "k \<notin> set (map fst stored)"
      by (simp add: map_of_eq_None_iff)
    with None kv show ?thesis by auto
  next
    case (Some old)
    then have "k \<in> set (map fst stored)"
      by (metis map_of_eq_None_iff option.distinct(1) set_map)
    with Cons.prems kv have "key \<in> set (map fst config)" by auto
    from Cons.IH [OF this Cons.prems(2)] obtain k' where
      "k' \<in> set (map fst config)" "k' \<notin> set (map fst stored)"
      "config_diff stored config = Inl (KeyError k')" by blast
    with Some kv show ?thesis by auto
  qed
qed

lemma config_diff_keys:
  "config_diff stored config = Inr diff \<Longrightarrow> set (map fst diff) \<subseteq> set (map fst config)"
proof (induction config arbitrary: diff)
  case Nil
  then show ?case by simp
next
  case (Cons kv config)
  obtain k v where kv: "kv = (k, v)" by (cases kv)
  from Cons.prems kv obtain old d where
    d: "map_of stored k = Some old" "config_diff stored config = Inr d"
       "diff = (if \<not> py_eq old v then (k, v) # d else d)"
    by (auto split: option.splits sum.splits)
  from Cons.IH [OF d(2)] d(3) kv show ?case by auto
qed

lemma setup_logging_set_eq:
  assumes "PROCESS_LOGGING_CONFIG p = Some stored" "stored \<noteq> []"
      and "load_logging_config W (settings_path W settings) settings = Inr config"
  shows "setup_logging W settings p = warn_if_differs stored config p"
  using assms by (simp add: setup_logging_def)

text \<open>
  Claim C9. In the set state the comparison runs over the keys of the new
  configuration only. When the new configuration has a top-level key that the stored
  configuration lacks, the call ends with a \<open>KeyError\<close> for such a key; nothing is
  caught, and the state of the process is as before the call. The reported difference
  holds keys of the new configuration only, so a key that only the stored configuration
  has is never part of it.
\<close>

theorem drift_new_key_raises:
  assumes "PROCESS_LOGGING_CONFIG p = Some stored" "stored \<noteq> []"
      and "load_logging_config W (settings_path W settings) settings = Inr config"
      and "key \<in> set (map fst config)" "key \<notin> set (map fst stored)"
  shows "(\<exists>k. k \<in> set (map fst config) \<and> k \<notin> set (map fst stored) \<and>
              setup_logging W settings p = (Inl (KeyError k), p)) \<and>
         (\<forall>config' diff. config_diff stored config' = Inr diff \<longrightarrow>
              set (map fst diff) \<subseteq> set (map fst config'))"
proof
  from config_diff_missing [OF assms(4,5)] obtain k where
    k: "k \<in> set (map fst config)" "k \<notin> set (map fst stored)"
       "config_diff stored config = Inl (KeyError k)" by blast
  from assms(1-3) k(3) have "setup_logging W settings p = (Inl (KeyError k), p)"
    by (simp add: setup_logging_def warn_if_differs_def)
  with k show "\<exists>k. k \<in> set (map fst config) \<and> k \<notin> set (map fst stored) \<and>
              setup_logging W settings p = (Inl (KeyError k), p)" by blast
  show "\<forall>config' diff. config_diff stored config' = Inr diff \<longrightarrow>
              set (map fst diff) \<subseteq> set (map fst config')"
    using config_diff_keys by blast
qed


lemma example_first_call:
  "setup_logging (example_world ''version: 1'' Map.empty) () process_start =
     (Inr (),
      process_start\<lparr>PROCESS_LOGGING_CONFIG := Some [(''version'', YInt 1)],
        logging := copy_to_extra_loggers
          (PREFECT_LOGGING_EXTRA_LOGGERS (example_world ''version: 1'' Map.empty) ())
          [''prefect.extra'' \<mapsto> \<lparr>handlers = [''api''], level = 20, propagate = False\<rparr>],
        dictConfig_calls := dictConfig_calls process_start @ [[(''version'', YInt 1)]]\<rparr>)"
proof -
  have a: "PROCESS_LOGGING_CONFIG process_start = None"
    by (simp add: process_start_def)
  have c: "dictConfig (example_world ''version: 1'' Map.empty) [(''version'', YInt 1)]
      (logging process_start) =
     Inr [''prefect.extra'' \<mapsto> \<lparr>handlers = [''api''], level = 20, propagate = False\<rparr>]"
    by (simp add: eval_defs)
  show ?thesis by (rule setup_logging_unset_ok [OF a example_load_version c])
qed

theorem drift_new_key_raises_witness:
  "PROCESS_LOGGING_CONFIG (snd (setup_logging (example_world ''version: 1'' Map.empty) () process_start)) =
     Some [(''version'', YInt 1)] \<and>
   load_logging_config (example_world ''{version: 1, incremental: false}'' Map.empty)
     (settings_path (example_world ''{version: 1, incremental: false}'' Map.empty) ()) () =
     Inr [(''version'', YInt 1), (''incremental'', YBool False)] \<and>
   setup_logging (example_world ''{version: 1, incremental: false}'' Map.empty) ()
     (snd (setup_logging (example_world ''version: 1'' Map.empty) () process_start)) =
   (Inl (KeyError ''incremental''),
    snd (setup_logging (example_world ''version: 1'' Map.empty) () process_start))"
proof -
  let ?p = "snd (setup_logging (example_world ''version: 1'' Map.empty) () process_start)"
  let ?W = "example_world ''{version: 1, incremental: false}'' Map.empty"
  have s: "PROCESS_LOGGING_CONFIG ?p = Some [(''version'', YInt 1)]"
    by (simp add: example_first_call)
  have ne: "[(''version'', YInt 1)] \<noteq> []" by simp
  have k1: "''incremental'' \<in> set (map fst [(''version'', YInt 1), (''incremental'', YBool False)])"
    by simp
  have k2: "''incremental'' \<notin> set (map fst [(''version'', YInt 1)])"
    by simp
  from drift_new_key_raises [OF s ne example_load_incremental k1 k2]
  obtain k where k: "k \<in> set (map fst [(''version'', YInt 1), (''incremental'', YBool False)])"
      "k \<notin> set (map fst [(''version'', YInt 1)])"
      "setup_logging ?W () ?p = (Inl (KeyError k), ?p)"
    by blast
  from k(1,2) have "k = ''incremental''" by auto
  with k(3) s example_load_incremental show ?thesis by (intro conjI) simp_all
qed

text \<open>
  Claim C2, at a concrete input. The first call of the process resolves
  \<open>{version: 1}\<close> and stores it. The second call resolves
  \<open>{version: 1, incremental: False}\<close>, which differs from the stored configuration in the
  new key. The second call does not warn and return: it ends with \<open>KeyError\<close>, and
  no warning has been emitted.
\<close>

theorem drift_new_key_no_warning:
  "fst (setup_logging (example_world ''{version: 1, incremental: false}'' Map.empty) ()
          (snd (setup_logging (example_world ''version: 1'' Map.empty) () process_start))) =
     Inl (KeyError ''incremental'') \<and>
   warnings (snd (setup_logging (example_world ''{version: 1, incremental: false}'' Map.empty) ()
          (snd (setup_logging (example_world ''version: 1'' Map.empty) () process_start)))) = []"
proof -
  let ?p = "snd (setup_logging (example_world ''version: 1'' Map.empty) () process_start)"
  let ?W = "example_world ''{version: 1, incremental: false}'' Map.empty"
  have s: "PROCESS_LOGGING_CONFIG ?p = Some [(''version'', YInt 1)]"
    by (simp add: example_first_call)
  have w: "warnings ?p = []"
    unfolding example_first_call by (simp add: process_start_def)
  have ne: "[(''version'', YInt 1)] \<noteq> []" by simp
  have "setup_logging ?W () ?p =
      warn_if_differs [(''version'', YInt 1)]
        [(''version'', YInt 1), (''incremental'', YBool False)] ?p"
    by (rule setup_logging_set_eq [OF s ne example_load_incremental])
  also have "\<dots> = (Inl (KeyError ''incremental''), ?p)"
    by (simp add: warn_if_differs_def)
  finally show ?thesis using w by simp
qed

subsection \<open>Configurations that \<open>dictConfig\<close> refuses\<close>

lemma example_load_level:
  "load_logging_config (example_world ''level: INFO'' Map.empty)
     (settings_path (example_world ''level: INFO'' Map.empty) ()) () =
   Inr [(''level'', YStr ''INFO'')]"
  by (simp add: eval_defs)

lemma example_refused_call:
  "PROCESS_LOGGING_CONFIG p = None \<Longrightarrow>
   setup_logging (example_world ''level: INFO'' Map.empty) () p =
     (Inl (ValueError ''dictionary does not specify a version''),
      p\<lparr>dictConfig_calls := dictConfig_calls p @ [[(''level'', YStr ''INFO'')]]\<rparr>)"
  by (simp add: setup_logging_def example_load_level configure_process_def dictConfig_def)

text \<open>
  The claim C1 as stated fails for a resolved configuration that \<open>dictConfig\<close> refuses:
  \<open>level: INFO\<close> resolves to \<open>{'level': 'INFO'}\<close>, \<open>dictConfig\<close> is called with it and
  raises, nothing is stored, and the next call of \<open>setup_logging\<close> calls \<open>dictConfig\<close>
  again.
\<close>

theorem gate_refused_config_applies_again:
  "PROCESS_LOGGING_CONFIG process_start = None \<and>
   load_logging_config (example_world ''level: INFO'' Map.empty)
     (settings_path (example_world ''level: INFO'' Map.empty) ()) () =
     Inr [(''level'', YStr ''INFO'')] \<and>
   PROCESS_LOGGING_CONFIG
     (snd (setup_logging (example_world ''level: INFO'' Map.empty) () process_start)) = None \<and>
   dictConfig_calls
     (snd (setup_logging (example_world ''level: INFO'' Map.empty) () process_start)) =
     [[(''level'', YStr ''INFO'')]] \<and>
   dictConfig_calls
     (run_calls [(example_world ''level: INFO'' Map.empty, ())]
        (snd (setup_logging (example_world ''level: INFO'' Map.empty) () process_start))) =
     [[(''level'', YStr ''INFO'')], [(''level'', YStr ''INFO'')]]"
proof -
  have a: "PROCESS_LOGGING_CONFIG process_start = None"
    by (simp add: process_start_def)
  have d: "dictConfig_calls process_start = []"
    by (simp add: process_start_def)
  let ?p = "snd (setup_logging (example_world ''level: INFO'' Map.empty) () process_start)"
  have p: "?p = process_start\<lparr>dictConfig_calls := [[(''level'', YStr ''INFO'')]]\<rparr>"
    by (simp add: example_refused_call [OF a] d)
  have b: "PROCESS_LOGGING_CONFIG ?p = None"
    unfolding p by (simp add: a)
  have c: "dictConfig_calls ?p = [[(''level'', YStr ''INFO'')]]"
    unfolding p by simp
  have e: "dictConfig_calls (run_calls [(example_world ''level: INFO'' Map.empty, ())] ?p) =
      [[(''level'', YStr ''INFO'')], [(''level'', YStr ''INFO'')]]"
    by (simp add: example_refused_call [OF b] c)
  from a example_load_level b c e show ?thesis by (intro conjI)
qed

text \<open>
  The claim C3 as stated fails when \<open>dictConfig\<close> refuses the first resolved
  configuration: the first call resolves \<open>{'level': 'INFO'}\<close>, which is not stored; the
  second call resolves \<open>{'version': 1}\<close>, and that is the stored configuration.
\<close>

theorem stored_config_not_first_resolved:
  "load_logging_config (example_world ''level: INFO'' Map.empty)
     (settings_path (example_world ''level: INFO'' Map.empty) ()) () =
     Inr [(''level'', YStr ''INFO'')] \<and>
   PROCESS_LOGGING_CONFIG
     (run_calls [(example_world ''level: INFO'' Map.empty, ()),
                 (example_world ''version: 1'' Map.empty, ())] process_start) =
     Some [(''version'', YInt 1)]"
proof -
  have a: "PROCESS_LOGGING_CONFIG process_start = None"
    by (simp add: process_start_def)
  let ?p = "process_start\<lparr>dictConfig_calls := dictConfig_calls process_start @ [[(''level'', YStr ''INFO'')]]\<rparr>"
  have b: "PROCESS_LOGGING_CONFIG ?p = None"
    by (simp add: a)
  have c: "dictConfig (example_world ''version: 1'' Map.empty) [(''version'', YInt 1)] (logging ?p) =
     Inr [''prefect.extra'' \<mapsto> \<lparr>handlers = [''api''], level = 20, propagate = False\<rparr>]"
    by (simp add: eval_defs)
  have "PROCESS_LOGGING_CONFIG
     (run_calls [(example_world ''level: INFO'' Map.empty, ()),
                 (example_world ''version: 1'' Map.empty, ())] process_start) =
     Some [(''version'', YInt 1)]"
    by (simp add: example_refused_call [OF a] setup_logging_unset_ok [OF b example_load_version c])
  with example_load_level show ?thesis by (intro conjI)
qed

subsection \<open>The extra loggers\<close>




lemma addHandler_fields: "level (addHandler h lg) = level lg" "propagate (addHandler h lg) = propagate lg"
  by (simp_all add: addHandler_def)



lemma fold_addHandler_fields:
  "level (fold addHandler hs lg) = level lg" "propagate (fold addHandler hs lg) = propagate lg"
  by (induction hs arbitrary: lg) (simp_all add: addHandler_fields)













subsection \<open>Template substitution\<close>

lemma convert_all_unregistered:
  assumes "t \<in> set ts" "t = Named n \<or> t = Braced n" "map_of mapping n = None"
  shows "\<exists>e. convert_all mapping ts = Inl e \<and>
            ((\<exists>m. e = KeyError m \<and> map_of mapping m = None) \<or>
             e = ValueError ''Invalid placeholder in string'') \<and>
            (Invalid \<notin> set ts \<longrightarrow> (\<exists>m. e = KeyError m \<and> map_of mapping m = None))"
  using assms(1)
proof (induction ts)
  case Nil
  then show ?case by simp
next
  case (Cons u us)
  show ?case
  proof (cases "convert mapping u")
    case (Inl e)
    then have "(\<exists>m. e = KeyError m \<and> map_of mapping m = None) \<or>
        (e = ValueError ''Invalid placeholder in string'' \<and> u = Invalid)"
      by (cases u) (auto split: option.splits)
    with Inl show ?thesis by auto
  next
    case (Inr s)
    with assms(2,3) have "u \<noteq> t" by auto
    with Cons.prems have "t \<in> set us" by simp
    from Cons.IH [OF this] obtain e where e: "convert_all mapping us = Inl e"
      "(\<exists>m. e = KeyError m \<and> map_of mapping m = None) \<or>
         e = ValueError ''Invalid placeholder in string''"
      "Invalid \<notin> set us \<longrightarrow> (\<exists>m. e = KeyError m \<and> map_of mapping m = None)"
      by blast
    with Inr show ?thesis by auto
  qed
qed

lemma template_mapping_None:
  "map_of (template_mapping W settings) n = None \<longleftrightarrow> n \<notin> set (map name (SETTINGS W))"
  by (simp add: template_mapping_def map_of_eq_None_iff image_image)

lemma setup_logging_load_error:
  "load_logging_config W (settings_path W settings) settings = Inl e \<Longrightarrow>
   setup_logging W settings p = (Inl e, p)"
  by (simp add: setup_logging_def)

text \<open>
  Claim C6. When the text of the template refers to a name (as \<open>$name\<close> or \<open>${name}\<close>)
  that no setting of the registry has, \<open>substitute\<close> raises, \<open>load_logging_config\<close>
  raises the same exception, and \<open>setup_logging\<close> ends with it and leaves the state of the
  process as it was: nothing is stored, applied or warned. The exception is a
  \<open>KeyError\<close> for a name that is not registered; only where the text also holds an
  ill-formed placeholder can it be the \<open>ValueError\<close> of that placeholder instead.
\<close>

theorem unregistered_placeholder_fails:
  assumes "files W (settings_path W settings) = Some text"
      and "Named n \<in> set (tokens text) \<or> Braced n \<in> set (tokens text)"
      and "n \<notin> set (map name (SETTINGS W))"
  shows "\<exists>e. substitute (template_mapping W settings) text = Inl e \<and>
            load_logging_config W (settings_path W settings) settings = Inl e \<and>
            setup_logging W settings p = (Inl e, p) \<and>
            ((\<exists>m. e = KeyError m \<and> m \<notin> set (map name (SETTINGS W))) \<or>
             e = ValueError ''Invalid placeholder in string'') \<and>
            (Invalid \<notin> set (tokens text) \<longrightarrow>
               (\<exists>m. e = KeyError m \<and> m \<notin> set (map name (SETTINGS W))))"
proof -
  from assms(2) obtain t where t: "t \<in> set (tokens text)" "t = Named n \<or> t = Braced n"
    by blast
  from assms(3) have none: "map_of (template_mapping W settings) n = None"
    by (simp add: template_mapping_None)
  from convert_all_unregistered [OF t none] obtain e where
    e: "convert_all (template_mapping W settings) (tokens text) = Inl e"
       "(\<exists>m. e = KeyError m \<and> map_of (template_mapping W settings) m = None) \<or>
          e = ValueError ''Invalid placeholder in string''"
       "Invalid \<notin> set (tokens text) \<longrightarrow>
          (\<exists>m. e = KeyError m \<and> map_of (template_mapping W settings) m = None)"
    by blast
  from e(1) have s: "substitute (template_mapping W settings) text = Inl e"
    by (simp add: substitute_def)
  with assms(1) have l: "load_logging_config W (settings_path W settings) settings = Inl e"
    by (simp add: load_logging_config_def load_template_def)
  from s l setup_logging_load_error [OF l, of p] e(2,3) show ?thesis
    unfolding template_mapping_None by blast
qed

lemma tokens_no_such_setting:
  "tokens ''level: ${NO_SUCH_SETTING}'' =
     [Lit CHR ''l'', Lit CHR ''e'', Lit CHR ''v'', Lit CHR ''e'', Lit CHR ''l'', Lit CHR '':'',
      Lit CHR '' '', Braced ''NO_SUCH_SETTING'']"
  by (simp add: id_char_def id_start_def digits_def ascii_lowercase_def ascii_uppercase_def)

theorem unregistered_placeholder_fails_witness:
  "files (example_world ''level: ${NO_SUCH_SETTING}'' Map.empty)
     (settings_path (example_world ''level: ${NO_SUCH_SETTING}'' Map.empty) ()) =
     Some ''level: ${NO_SUCH_SETTING}'' \<and>
   Braced ''NO_SUCH_SETTING'' \<in> set (tokens ''level: ${NO_SUCH_SETTING}'') \<and>
   ''NO_SUCH_SETTING'' \<notin> set (map name (SETTINGS (example_world ''level: ${NO_SUCH_SETTING}'' Map.empty))) \<and>
   setup_logging (example_world ''level: ${NO_SUCH_SETTING}'' Map.empty) () process_start =
     (Inl (KeyError ''NO_SUCH_SETTING''), process_start)"
proof -
  let ?W = "example_world ''level: ${NO_SUCH_SETTING}'' Map.empty"
  have a: "files ?W (settings_path ?W ()) = Some ''level: ${NO_SUCH_SETTING}''"
    by (simp add: example_world_def settings_path_def)
  have b: "Braced ''NO_SUCH_SETTING'' \<in> set (tokens ''level: ${NO_SUCH_SETTING}'')"
    unfolding tokens_no_such_setting by simp
  have c: "''NO_SUCH_SETTING'' \<notin> set (map name (SETTINGS ?W))"
    by (simp add: example_world_def)
  have s: "substitute (template_mapping ?W ()) ''level: ${NO_SUCH_SETTING}'' =
      Inl (KeyError ''NO_SUCH_SETTING'')"
    unfolding substitute_def tokens_no_such_setting
    by (simp add: template_mapping_def example_world_def)
  from unregistered_placeholder_fails [OF a disjI2 [OF b] c, of process_start]
  obtain e where e: "substitute (template_mapping ?W ()) ''level: ${NO_SUCH_SETTING}'' = Inl e"
      "setup_logging ?W () process_start = (Inl e, process_start)"
    by blast
  from e(1) s have "e = KeyError ''NO_SUCH_SETTING''" by simp
  with e(2) a b c show ?thesis by (intro conjI) simp_all
qed

lemma tokens_log_level:
  "tokens ''level: ${LOG_LEVEL}'' =
     [Lit CHR ''l'', Lit CHR ''e'', Lit CHR ''v'', Lit CHR ''e'', Lit CHR ''l'', Lit CHR '':'',
      Lit CHR '' '', Braced ''LOG_LEVEL'']"
  by (simp add: id_char_def id_start_def digits_def ascii_lowercase_def ascii_uppercase_def)

lemma yaml_safe_load_level_info:
  "yaml_safe_load W ''level: INFO'' = Inr (YDict [(''level'', YStr ''INFO'')])"
  by (simp add: yaml_safe_load_def plain_word_def yaml_reserved_words_def Let_def
      ascii_lowercase_def ascii_uppercase_def)

text \<open>
  Claim C8. For the template text \<open>level: ${LOG_LEVEL}\<close> and a registry that gives the
  name \<open>LOG_LEVEL\<close> the value \<open>INFO\<close>, the substitution yields the text \<open>level: INFO\<close> and
  the parsed result of lines 37 to 45 is the configuration \<open>{level: "INFO"}\<close>.
\<close>

theorem resolve_log_level_example:
  assumes "files W path = Some ''level: ${LOG_LEVEL}''"
      and "map_of (template_mapping W settings) ''LOG_LEVEL'' = Some ''INFO''"
  shows "substitute (template_mapping W settings) ''level: ${LOG_LEVEL}'' = Inr ''level: INFO'' \<and>
         load_template W path settings = Inr (YDict [(''level'', YStr ''INFO'')])"
proof -
  have s: "substitute (template_mapping W settings) ''level: ${LOG_LEVEL}'' = Inr ''level: INFO''"
    using assms(2) unfolding substitute_def tokens_log_level by simp
  with assms(1) show ?thesis
    by (simp add: load_template_def yaml_safe_load_level_info)
qed

theorem resolve_log_level_example_witness:
  "files (example_world ''level: ${LOG_LEVEL}'' Map.empty) DEFAULT_LOGGING_SETTINGS_PATH =
     Some ''level: ${LOG_LEVEL}'' \<and>
   map_of (template_mapping (example_world ''level: ${LOG_LEVEL}'' Map.empty) ()) ''LOG_LEVEL'' =
     Some ''INFO'' \<and>
   load_template (example_world ''level: ${LOG_LEVEL}'' Map.empty) DEFAULT_LOGGING_SETTINGS_PATH () =
     Inr (YDict [(''level'', YStr ''INFO'')])"
proof -
  let ?W = "example_world ''level: ${LOG_LEVEL}'' Map.empty"
  have a: "files ?W DEFAULT_LOGGING_SETTINGS_PATH = Some ''level: ${LOG_LEVEL}''"
    by (simp add: example_world_def)
  have b: "map_of (template_mapping ?W ()) ''LOG_LEVEL'' = Some ''INFO''"
    by (simp add: template_mapping_def example_world_def)
  from resolve_log_level_example [OF a b] a b show ?thesis by (intro conjI) simp_all
qed

end
